theory Spec2Isabelle
  imports Main
begin

section \<open>JavaScript values\<close>

text \<open>
  The request body is whatever \<^verbatim>\<open>bodyParser.json()\<close> produced: a JSON value. Numbers are
  modelled by integers (the middleware only tests them for truthiness and compares them),
  strings by \<^typ>\<open>string\<close>, an object by the list of its own properties in order. \<open>JDate\<close>
  is the value of \<^verbatim>\<open>new Date()\<close> (milliseconds); it never occurs in a request body.
  The JavaScript value \<^verbatim>\<open>undefined\<close> is \<open>None\<close> of \<^typ>\<open>'a option\<close>.
\<close>

datatype jsval =
    JNull
  | JBool bool
  | JNum int
  | JStr string
  | JArr "jsval list"
  | JObj "(string \<times> jsval) list"
  | JDate int

text \<open>
  Exceptions that reach the \<^verbatim>\<open>catch\<close> block of a handler: a property read on \<^verbatim>\<open>null\<close>,
  an operation the server rejects, a connection that cannot be opened.
\<close>

datatype error = TypeError | WriteError | ConnectionError

text \<open>\<^verbatim>\<open>Array.isArray(v)\<close> and, for an array, its elements.\<close>

fun is_array :: "jsval \<Rightarrow> bool" where
  "is_array (JArr xs) = True"
| "is_array v = False"

fun elems :: "jsval \<Rightarrow> jsval list" where
  "elems (JArr xs) = xs"
| "elems v = []"

text \<open>\<^verbatim>\<open>Boolean(v)\<close>: \<^verbatim>\<open>undefined\<close>, \<^verbatim>\<open>null\<close>, \<^verbatim>\<open>false\<close>, \<^verbatim>\<open>0\<close> and \<^verbatim>\<open>""\<close> are falsy.\<close>

fun truthy :: "jsval option \<Rightarrow> bool" where
  "truthy None = False"
| "truthy (Some JNull) = False"
| "truthy (Some (JBool b)) = b"
| "truthy (Some (JNum n)) = (n \<noteq> 0)"
| "truthy (Some (JStr s)) = (s \<noteq> [])"
| "truthy (Some (JArr xs)) = True"
| "truthy (Some (JObj kvs)) = True"
| "truthy (Some (JDate t)) = True"

text \<open>
  \<^verbatim>\<open>v.name\<close> for the property names the middleware reads (\<^verbatim>\<open>promptVersionId\<close>,
  \<^verbatim>\<open>parentMember\<close>, \<^verbatim>\<open>dependentMembers\<close>, \<^verbatim>\<open>memberDependencyId\<close>): reading a
  property of \<^verbatim>\<open>null\<close> throws a TypeError, an object yields its own property, and every
  other value has no property of these names.
\<close>

fun get_prop :: "jsval \<Rightarrow> string \<Rightarrow> error + jsval option" where
  "get_prop JNull name = Inl TypeError"
| "get_prop (JObj kvs) name = Inr (map_of kvs name)"
| "get_prop v name = Inr None"

text \<open>\<^verbatim>\<open>v?.name\<close>: \<^verbatim>\<open>undefined\<close> when \<open>v\<close> is \<^verbatim>\<open>null\<close> or \<^verbatim>\<open>undefined\<close>, never throws.\<close>

fun opt_chain :: "jsval option \<Rightarrow> string \<Rightarrow> jsval option" where
  "opt_chain (Some (JObj kvs)) name = map_of kvs name"
| "opt_chain v name = None"

text \<open>\<^verbatim>\<open>xs.map(f)\<close> for a callback that may throw: the first exception aborts the map.\<close>

fun map_throw :: "('a \<Rightarrow> error + 'b) \<Rightarrow> 'a list \<Rightarrow> error + 'b list" where
  "map_throw f [] = Inr []"
| "map_throw f (x # xs) =
     (case f x of
        Inl e \<Rightarrow> Inl e
      | Inr y \<Rightarrow> (case map_throw f xs of Inl e \<Rightarrow> Inl e | Inr ys \<Rightarrow> Inr (y # ys)))"

text \<open>\<^verbatim>\<open>xs.filter(Boolean)\<close> on a list of possibly undefined values.\<close>

definition filter_boolean :: "jsval option list \<Rightarrow> jsval list" where
  "filter_boolean vs = [v. Some v \<leftarrow> vs, truthy (Some v)]"

section \<open>The document store\<close>

text \<open>
  The store is the external collaborator (the MongoDB driver). A document is a finite map
  from top-level field names to values (the generated \<^verbatim>\<open>_id\<close> is left out), a collection
  is the list of its documents in natural order, a database maps a collection name to the
  collection. The driver sends \<^verbatim>\<open>undefined\<close> as \<^verbatim>\<open>null\<close>, and an equality condition on
  \<^verbatim>\<open>null\<close> selects the documents in which the field is \<^verbatim>\<open>null\<close> or missing; otherwise a
  field matches a value when it is equal to it. This is the store's behaviour for keys
  that are \<^verbatim>\<open>null\<close>, strings, numbers or booleans and for plain top-level field names. The
  store itself matches an array-valued field by containment, reads an object with
  \<^verbatim>\<open>$\<close>-names as an operator and a dotted name as a path, and keeps \<^verbatim>\<open>_id\<close> immutable; none
  of this is part of the model, and the properties of the key set of a reconciliation and
  of the flat endpoints are stated for scalar keys and plain names (\<open>scalar\<close>, \<open>plain_name\<close>
  below).
\<close>

type_synonym document = "string \<rightharpoonup> jsval"
type_synonym collection = "document list"
type_synonym database = "string \<Rightarrow> collection"

datatype filter = FieldEq string "jsval option" | FieldIn string "jsval list" | FieldNin string "jsval list"

text \<open>\<^verbatim>\<open>{updateOne: {filter: {field: value}, update: {$set: operand}, upsert: true}}\<close>\<close>

datatype update_op = UpdateOne (op_field: string) (op_value: "jsval option") (op_set: jsval)

datatype call = Connect | BulkWrite string "update_op list" | DeleteMany string filter | Close

definition bson :: "jsval option \<Rightarrow> jsval" where
  "bson v = (case v of None \<Rightarrow> JNull | Some x \<Rightarrow> x)"

definition field_value :: "string \<Rightarrow> document \<Rightarrow> jsval" where
  "field_value f d = bson (d f)"

fun matches :: "filter \<Rightarrow> document \<Rightarrow> bool" where
  "matches (FieldEq f v) d = (field_value f d = bson v)"
| "matches (FieldIn f vs) d = (field_value f d \<in> set vs)"
| "matches (FieldNin f vs) d = (field_value f d \<notin> set vs)"

text \<open>
  \<open>update_first f v u c\<close>: the first document of \<open>c\<close> whose field \<open>f\<close> matches \<open>v\<close> gets the
  fields of \<open>u\<close> set (\<^verbatim>\<open>$set\<close> keeps every other field); when no document matches, the upsert
  appends a new document made of the equality condition and the fields of \<open>u\<close>. As said
  above, this is what the store does for a scalar \<open>v\<close>, scalar values of \<open>f\<close> in \<open>c\<close> and plain
  names in \<open>u\<close>; \<open>matches\<close> likewise is the store's matching for scalar values.
\<close>

fun update_first :: "string \<Rightarrow> jsval \<Rightarrow> (string \<times> jsval) list \<Rightarrow> collection \<Rightarrow> collection" where
  "update_first f v u [] = [[f \<mapsto> v] ++ map_of u]"
| "update_first f v u (d # ds) =
     (if field_value f d = v then (d ++ map_of u) # ds else d # update_first f v u ds)"

text \<open>The operand of \<^verbatim>\<open>$set\<close> must be a document; the server rejects anything else.\<close>

fun apply_op :: "update_op \<Rightarrow> collection \<Rightarrow> error + collection" where
  "apply_op (UpdateOne f v (JObj u)) c = Inr (update_first f (bson v) u c)"
| "apply_op (UpdateOne f v other) c = Inl WriteError"

text \<open>
  \<^verbatim>\<open>collection.bulkWrite(ops)\<close>, ordered: the operations run in order and the first failure
  stops the batch, leaving the earlier ones applied.
\<close>

fun bulk_write :: "update_op list \<Rightarrow> collection \<Rightarrow> error option \<times> collection" where
  "bulk_write [] c = (None, c)"
| "bulk_write (op # ops) c =
     (case apply_op op c of
        Inl e \<Rightarrow> (Some e, c)
      | Inr c' \<Rightarrow> bulk_write ops c')"

text \<open>\<^verbatim>\<open>collection.deleteMany(filter)\<close>: the deleted count and the remaining documents.\<close>

definition delete_many :: "filter \<Rightarrow> collection \<Rightarrow> nat \<times> collection" where
  "delete_many flt c = (length (filter (matches flt) c), filter (\<lambda>d. \<not> matches flt d) c)"

section \<open>Responses\<close>

datatype body =
    Error_empty_payload
  | Error_not_nonempty_array
  | Error_no_valid_parent
  | Error_thrown error
  | Upsert_completed string nat
  | Delete_completed string nat
  | Snapshot_completed nat nat

text \<open>
  What one request leaves behind: the response, the database afterwards and the calls made
  on the store, in order.
\<close>

record outcome =
  status :: nat
  body :: body
  store :: database
  calls :: "call list"

text \<open>\<^verbatim>\<open>req.query.domain || 'Prompt'\<close>\<close>

definition domain_of :: "string option \<Rightarrow> string" where
  "domain_of q = (case q of None \<Rightarrow> ''Prompt'' | Some s \<Rightarrow> if s = [] then ''Prompt'' else s)"

section \<open>\<^verbatim>\<open>POST /sync_prompt_versions\<close>\<close>

definition prompt_op :: "jsval \<Rightarrow> error + update_op" where
  "prompt_op doc =
     (case get_prop doc ''promptVersionId'' of
        Inl e \<Rightarrow> Inl e
      | Inr v \<Rightarrow> Inr (UpdateOne ''promptVersionId'' v doc))"

definition sync_prompt_versions :: "string option \<Rightarrow> jsval \<Rightarrow> database \<Rightarrow> outcome" where
  "sync_prompt_versions q payload db =
     (let domain = domain_of q in
      if \<not> is_array payload \<or> length (elems payload) = 0
      then \<lparr>status = 400, body = Error_empty_payload, store = db, calls = []\<rparr>
      else
        (case map_throw prompt_op (elems payload) of
           Inl e \<Rightarrow> \<lparr>status = 500, body = Error_thrown e, store = db, calls = [Connect]\<rparr>
         | Inr bulkOps \<Rightarrow>
             if length bulkOps > 0
             then
               (case bulk_write bulkOps (db domain) of
                  (Some e, c') \<Rightarrow>
                    \<lparr>status = 500, body = Error_thrown e, store = db(domain := c'),
                     calls = [Connect, BulkWrite domain bulkOps]\<rparr>
                | (None, c') \<Rightarrow>
                    \<lparr>status = 200, body = Upsert_completed domain (length (elems payload)),
                     store = db(domain := c'),
                     calls = [Connect, BulkWrite domain bulkOps, Close]\<rparr>)
             else
               \<lparr>status = 200, body = Upsert_completed domain (length (elems payload)),
                store = db, calls = [Connect, Close]\<rparr>))"

section \<open>\<^verbatim>\<open>POST /delete_prompt_versions\<close>\<close>

text \<open>
  \<open>reachable\<close> says whether \<^verbatim>\<open>getMongoClient()\<close> can connect; when it cannot, it throws
  inside the \<^verbatim>\<open>try\<close> block. (The two sync handlers are modelled with a store that can
  be reached.)
\<close>

definition delete_prompt_versions :: "bool \<Rightarrow> string option \<Rightarrow> jsval \<Rightarrow> database \<Rightarrow> outcome" where
  "delete_prompt_versions reachable q payload db =
     (let domain = domain_of q in
      if \<not> is_array payload \<or> length (elems payload) = 0
      then \<lparr>status = 400, body = Error_empty_payload, store = db, calls = []\<rparr>
      else if \<not> reachable
      then \<lparr>status = 500, body = Error_thrown ConnectionError, store = db, calls = [Connect]\<rparr>
      else
        (case map_throw (\<lambda>p. get_prop p ''promptVersionId'') (elems payload) of
           Inl e \<Rightarrow> \<lparr>status = 500, body = Error_thrown e, store = db, calls = [Connect]\<rparr>
         | Inr ids \<Rightarrow>
             (let idsToDelete = filter_boolean ids in
              if length idsToDelete > 0
              then
                (let flt = FieldIn ''promptVersionId'' idsToDelete;
                     (n, c') = delete_many flt (db domain)
                 in \<lparr>status = 200, body = Delete_completed domain (length idsToDelete),
                     store = db(domain := c'),
                     calls = [Connect, DeleteMany domain flt, Close]\<rparr>)
              else
                \<lparr>status = 200, body = Delete_completed domain (length idsToDelete),
                 store = db, calls = [Connect, Close]\<rparr>)))"

section \<open>\<^verbatim>\<open>POST /sync_member_dependencies\<close>\<close>

text \<open>\<^verbatim>\<open>p.parentMember?.parentMemberId\<close>\<close>

definition parent_member_id :: "jsval \<Rightarrow> error + jsval option" where
  "parent_member_id p =
     (case get_prop p ''parentMember'' of
        Inl e \<Rightarrow> Inl e
      | Inr pm \<Rightarrow> Inr (opt_chain pm ''parentMemberId''))"

text \<open>
  A \<^verbatim>\<open>Map\<close> is the list of its entries in insertion order. Keys are compared by
  SameValueZero: primitives by value, objects (arrays, dates) by reference, and two objects
  parsed from the request body are never the same reference. \<^verbatim>\<open>set\<close> on a key that is
  present replaces the value in place; a new key is appended.
\<close>

fun same_value_zero :: "jsval \<Rightarrow> jsval \<Rightarrow> bool" where
  "same_value_zero JNull JNull = True"
| "same_value_zero (JBool a) (JBool b) = (a = b)"
| "same_value_zero (JNum a) (JNum b) = (a = b)"
| "same_value_zero (JStr a) (JStr b) = (a = b)"
| "same_value_zero a b = False"

fun map_set :: "jsval \<Rightarrow> jsval \<Rightarrow> (jsval \<times> jsval) list \<Rightarrow> (jsval \<times> jsval) list" where
  "map_set k v [] = [(k, v)]"
| "map_set k v ((k', v') # m) =
     (if same_value_zero k' k then (k', v) # m else (k', v') # map_set k v m)"

text \<open>
  \<^verbatim>\<open>dependents.forEach(d => { if (d.memberDependencyId) uniqueDependentsMap.set(d.memberDependencyId, d); })\<close>
\<close>

fun for_each_dependent :: "jsval list \<Rightarrow> (jsval \<times> jsval) list \<Rightarrow> error + (jsval \<times> jsval) list" where
  "for_each_dependent [] m = Inr m"
| "for_each_dependent (d # ds) m =
     (case get_prop d ''memberDependencyId'' of
        Inl e \<Rightarrow> Inl e
      | Inr None \<Rightarrow> for_each_dependent ds m
      | Inr (Some k) \<Rightarrow> for_each_dependent ds (if truthy (Some k) then map_set k d m else m))"

text \<open>\<^verbatim>\<open>Array.from(uniqueDependentsMap.values())\<close> after the loop over \<open>dependents\<close>.\<close>

definition unique_dependents :: "jsval list \<Rightarrow> error + jsval list" where
  "unique_dependents dependents =
     (case for_each_dependent dependents [] of
        Inl e \<Rightarrow> Inl e
      | Inr m \<Rightarrow> Inr (map snd m))"

text \<open>
  The callback of \<^verbatim>\<open>payload.map\<close> that prepares the upserts: \<^verbatim>\<open>null\<close> (here \<open>None\<close>) for a
  record without a usable parent id, otherwise the \<^verbatim>\<open>updateOne\<close> keyed on it. \<open>now\<close> is the
  time \<^verbatim>\<open>new Date()\<close> reads for this record.
\<close>

definition member_op :: "int \<Rightarrow> jsval \<Rightarrow> error + update_op option" where
  "member_op now doc =
     (case get_prop doc ''parentMember'' of
        Inl e \<Rightarrow> Inl e
      | Inr pm \<Rightarrow>
          (let parentId = opt_chain pm ''parentMemberId'' in
           if \<not> truthy parentId then Inr None
           else
             (case get_prop doc ''dependentMembers'' of
                Inl e \<Rightarrow> Inl e
              | Inr dm \<Rightarrow>
                  (let dependents = (if is_array (bson dm) then elems (bson dm) else []) in
                   case unique_dependents dependents of
                     Inl e \<Rightarrow> Inl e
                   | Inr uniqueDependents \<Rightarrow>
                       Inr (Some (UpdateOne ''parentMemberId'' parentId
                         (JObj [(''parentMemberId'', bson parentId),
                                (''parentMember'', bson pm),
                                (''dependentMembers'', JArr uniqueDependents),
                                (''lastSyncedAt'', JDate now)])))))))"

text \<open>\<open>clock i\<close> is the time read while the \<open>i\<close>-th record of the payload is prepared.\<close>

definition sync_member_dependencies :: "(nat \<Rightarrow> int) \<Rightarrow> jsval \<Rightarrow> database \<Rightarrow> outcome" where
  "sync_member_dependencies clock payload db =
     (if \<not> is_array payload \<or> length (elems payload) = 0
      then \<lparr>status = 400, body = Error_not_nonempty_array, store = db, calls = []\<rparr>
      else
        (case map_throw parent_member_id (elems payload) of
           Inl e \<Rightarrow> \<lparr>status = 500, body = Error_thrown e, store = db, calls = [Connect]\<rparr>
         | Inr ids \<Rightarrow>
             (let parentIdsFromPayload = filter_boolean ids in
              if length parentIdsFromPayload = 0
              then \<lparr>status = 400, body = Error_no_valid_parent, store = db,
                    calls = [Connect, Close]\<rparr>
              else
                (case map_throw (\<lambda>(i, doc). member_op (clock i) doc)
                        (enumerate 0 (elems payload)) of
                   Inl e \<Rightarrow> \<lparr>status = 500, body = Error_thrown e, store = db, calls = [Connect]\<rparr>
                 | Inr prepared \<Rightarrow>
                     (let bulkOps = [op. Some op \<leftarrow> prepared];
                          coll = db ''MemberDependencies'';
                          (failure, c1, written) =
                             (if length bulkOps > 0
                              then (case bulk_write bulkOps coll of
                                      (e, c') \<Rightarrow> (e, c', [BulkWrite ''MemberDependencies'' bulkOps]))
                              else (None, coll, []))
                      in case failure of
                           Some e \<Rightarrow>
                             \<lparr>status = 500, body = Error_thrown e,
                              store = db(''MemberDependencies'' := c1),
                              calls = Connect # written\<rparr>
                         | None \<Rightarrow>
                             (let flt = FieldNin ''parentMemberId'' parentIdsFromPayload;
                                  (deleted, c2) = delete_many flt c1
                              in \<lparr>status = 200,
                                  body = Snapshot_completed (length bulkOps) deleted,
                                  store = db(''MemberDependencies'' := c2),
                                  calls = Connect # written @
                                    [DeleteMany ''MemberDependencies'' flt, Close]\<rparr>))))))"

section \<open>Notions used to state the properties\<close>

text \<open>A database with no document at all, and a clock that always reads zero.\<close>

definition empty_database :: database where
  "empty_database = (\<lambda>name. [])"

definition epoch :: "nat \<Rightarrow> int" where
  "epoch = (\<lambda>i. 0)"

text \<open>The property a value has under a name, where reading it does not throw.\<close>

fun own_prop :: "jsval \<Rightarrow> string \<Rightarrow> jsval option" where
  "own_prop (JObj kvs) name = map_of kvs name"
| "own_prop v name = None"

fun is_object :: "jsval \<Rightarrow> bool" where
  "is_object (JObj kvs) = True"
| "is_object v = False"

fun set_fields :: "jsval \<Rightarrow> (string \<times> jsval) list" where
  "set_fields (JObj kvs) = kvs"
| "set_fields v = []"

text \<open>
  A record has a resolvable parent id when \<^verbatim>\<open>p.parentMember?.parentMemberId\<close> evaluates
  to a truthy value.
\<close>

definition resolvable_parent :: "jsval \<Rightarrow> bool" where
  "resolvable_parent p = (case parent_member_id p of Inl e \<Rightarrow> False | Inr v \<Rightarrow> truthy v)"

definition parent_id :: "jsval \<Rightarrow> jsval option" where
  "parent_id p = opt_chain (own_prop p ''parentMember'') ''parentMemberId''"

text \<open>The list the handler deduplicates: the record's \<^verbatim>\<open>dependentMembers\<close> when it is an array.\<close>

definition dependents_of :: "jsval \<Rightarrow> jsval list" where
  "dependents_of doc =
     (if is_array (bson (own_prop doc ''dependentMembers''))
      then elems (bson (own_prop doc ''dependentMembers'')) else [])"



text \<open>
  One upsert on its own, for an operation the server accepts; an operation is keyed on
  \<open>f\<close> when it filters on \<open>f\<close> and sets \<open>f\<close> to the very value it filters on (or leaves it
  out when it filters on \<^verbatim>\<open>undefined\<close>). The keys of a collection are its documents'
  values of \<open>f\<close>, \<^verbatim>\<open>null\<close> standing for a missing field.
\<close>

definition run_op :: "update_op \<Rightarrow> collection \<Rightarrow> collection" where
  "run_op op c = update_first (op_field op) (bson (op_value op)) (set_fields (op_set op)) c"

definition keyed_op :: "string \<Rightarrow> update_op \<Rightarrow> bool" where
  "keyed_op f op = (op_field op = f \<and> is_object (op_set op) \<and> own_prop (op_set op) f = op_value op)"

definition keys_of :: "string \<Rightarrow> collection \<Rightarrow> jsval list" where
  "keys_of f c = map (field_value f) c"

text \<open>
  The inputs on which the store behaves as modelled. A scalar is \<^verbatim>\<open>null\<close>, a boolean, a
  number or a string; a plain field name is not empty, is not \<^verbatim>\<open>_id\<close>, holds no dot and
  does not start with \<^verbatim>\<open>$\<close>. A collection has a scalar field when every document has a
  scalar (or no) value in it; a payload has scalar ids when every element has a scalar
  (or no) id, and plain records when every field name of every element is plain.
\<close>

fun scalar :: "jsval \<Rightarrow> bool" where
  "scalar JNull = True"
| "scalar (JBool b) = True"
| "scalar (JNum n) = True"
| "scalar (JStr s) = True"
| "scalar v = False"

definition plain_name :: "string \<Rightarrow> bool" where
  "plain_name k = (k \<noteq> [] \<and> k \<noteq> ''_id'' \<and> CHR ''.'' \<notin> set k \<and> CHR ''$'' \<notin> set (take 1 k))"

definition scalar_field :: "string \<Rightarrow> collection \<Rightarrow> bool" where
  "scalar_field f c = list_all (\<lambda>d. scalar (field_value f d)) c"

definition scalar_prompt_ids :: "jsval \<Rightarrow> bool" where
  "scalar_prompt_ids payload =
     list_all (\<lambda>p. scalar (bson (own_prop p ''promptVersionId''))) (elems payload)"

definition scalar_parent_ids :: "jsval \<Rightarrow> bool" where
  "scalar_parent_ids payload = list_all (\<lambda>p. scalar (bson (parent_id p))) (elems payload)"

definition plain_records :: "jsval \<Rightarrow> bool" where
  "plain_records payload =
     list_all (\<lambda>p. list_all (\<lambda>(k, v). plain_name k) (set_fields p)) (elems payload)"


text \<open>
  The example of the specification: one parent \<^verbatim>\<open>P1\<close> whose dependents repeat the id
  \<^verbatim>\<open>D1\<close>, synchronised into a collection that holds a document for \<^verbatim>\<open>P2\<close>. Two more
  batches: one whose record has a dependent without an id, one whose \<^verbatim>\<open>dependentMembers\<close>
  is not an array.
\<close>

definition example_batch :: jsval where
  "example_batch =
     JArr [JObj [(''parentMember'', JObj [(''parentMemberId'', JStr ''P1'')]),
                 (''dependentMembers'',
                    JArr [JObj [(''memberDependencyId'', JStr ''D1''), (''v'', JNum 1)],
                          JObj [(''memberDependencyId'', JStr ''D1''), (''v'', JNum 2)]])]]"

definition example_database :: database where
  "example_database = empty_database(''MemberDependencies'' := [[''parentMemberId'' \<mapsto> JStr ''P2'']])"



text \<open>
  The fields that the operations filtering on the key \<open>k\<close> set, later operations winning;
  the upsert the flat sync builds for a record that is not \<^verbatim>\<open>null\<close>; the truthy
  \<^verbatim>\<open>promptVersionId\<close> values of a payload.
\<close>

fun merged :: "jsval \<Rightarrow> update_op list \<Rightarrow> document" where
  "merged k [] = Map.empty"
| "merged k (op # ops) =
     (if bson (op_value op) = k then map_of (set_fields (op_set op)) else Map.empty) ++ merged k ops"

definition prompt_update :: "jsval \<Rightarrow> update_op" where
  "prompt_update doc = UpdateOne ''promptVersionId'' (own_prop doc ''promptVersionId'') doc"

text \<open>Example batches and collections for the flat endpoints.\<close>

definition merge_batch :: jsval where
  "merge_batch = JArr [JObj [(''promptVersionId'', JStr ''A''), (''x'', JNum 2)]]"

definition repeat_batch :: jsval where
  "repeat_batch =
     JArr [JObj [(''promptVersionId'', JStr ''A''), (''x'', JNum 1)],
           JObj [(''promptVersionId'', JStr ''B'')],
           JObj [(''promptVersionId'', JStr ''A''), (''x'', JNum 2)]]"

definition merge_database :: database where
  "merge_database =
     empty_database(''Prompt'' := [[''promptVersionId'' \<mapsto> JStr ''A'', ''old'' \<mapsto> JNum 1]])"

definition prompt_ids :: "jsval \<Rightarrow> jsval list" where
  "prompt_ids payload = filter_boolean (map (\<lambda>p. own_prop p ''promptVersionId'') (elems payload))"

definition delete_batch :: jsval where
  "delete_batch = JArr [JObj [(''promptVersionId'', JStr ''A'')], JObj [(''name'', JStr ''x'')]]"

definition delete_database :: database where
  "delete_database =
     empty_database(''Prompt'' :=
       [[''promptVersionId'' \<mapsto> JStr ''A''], [''promptVersionId'' \<mapsto> JStr ''B'']])"

section \<open>Facts about the helpers\<close>

lemma get_prop_cases: "get_prop v name = (if v = JNull then Inl TypeError else Inr (own_prop v name))"
  by (cases v) simp_all

lemma map_throw_null:
  assumes "\<And>x. f x = (if x = JNull then Inl TypeError else Inr (g x))"
  shows "map_throw f xs = (if JNull \<in> set xs then Inl TypeError else Inr (map g xs))"
  by (induction xs) (auto simp: assms)

lemma parent_member_id_cases:
  "parent_member_id p =
     (if p = JNull then Inl TypeError else Inr (opt_chain (own_prop p ''parentMember'') ''parentMemberId''))"
  by (simp add: parent_member_id_def get_prop_cases)

lemma resolvable_parent_iff:
  "resolvable_parent p \<longleftrightarrow>
     p \<noteq> JNull \<and> truthy (opt_chain (own_prop p ''parentMember'') ''parentMemberId'')"
  by (simp add: resolvable_parent_def parent_member_id_cases)

lemma elems_nonempty_is_array: "x \<in> set (elems payload) \<Longrightarrow> is_array payload"
  by (cases payload) simp_all

lemma filter_boolean_empty: "(\<forall>v\<in>set vs. \<not> truthy v) \<Longrightarrow> filter_boolean vs = []"
  by (induction vs) (auto simp: filter_boolean_def split: option.splits)

subsection \<open>Deduplication through the map\<close>












lemma for_each_dependent_total:
  "JNull \<notin> set ds \<Longrightarrow> \<exists>m'. for_each_dependent ds m = Inr m'"
  by (induction ds arbitrary: m) (auto simp: get_prop_cases split: option.splits)


lemma unique_dependents_total:
  "JNull \<notin> set ds \<Longrightarrow> \<exists>out. unique_dependents ds = Inr out"
  using for_each_dependent_total [of ds "[]"] by (auto simp: unique_dependents_def)

subsection \<open>Upserts and deletes\<close>

lemma apply_op_object: "is_object (op_set op) \<Longrightarrow> apply_op op c = Inr (run_op op c)"
  by (cases op; cases "op_set op") (simp_all add: run_op_def)

lemma apply_op_not_object: "\<not> is_object (op_set op) \<Longrightarrow> apply_op op c = Inl WriteError"
  by (cases op; cases "op_set op") simp_all

lemma bulk_write_fold:
  "bulk_write ops c =
     (if list_all (\<lambda>op. is_object (op_set op)) ops then None else Some WriteError,
      fold run_op (takeWhile (\<lambda>op. is_object (op_set op)) ops) c)"
  by (induction ops arbitrary: c) (simp_all add: apply_op_object apply_op_not_object)

lemma bulk_write_objects:
  "\<forall>op\<in>set ops. is_object (op_set op) \<Longrightarrow> bulk_write ops c = (None, fold run_op ops c)"
proof -
  assume a: "\<forall>op\<in>set ops. is_object (op_set op)"
  then have tw: "takeWhile (\<lambda>op. is_object (op_set op)) ops = ops"
    by (simp add: takeWhile_eq_all_conv)
  from a have "list_all (\<lambda>op. is_object (op_set op)) ops"
    by (simp add: list_all_iff)
  then show ?thesis
    unfolding bulk_write_fold tw by simp
qed

lemma field_value_set:
  "map_of u f = vo \<Longrightarrow> field_value f d = bson vo \<Longrightarrow> field_value f (d ++ map_of u) = bson vo"
  by (cases vo) (simp_all add: field_value_def map_add_def)

lemma field_value_insert:
  "map_of u f = vo \<Longrightarrow> field_value f ([f \<mapsto> bson vo] ++ map_of u) = bson vo"
  by (cases vo) (simp_all add: field_value_def map_add_def bson_def)

lemma keys_of_update_first:
  "map_of u f = vo \<Longrightarrow>
   keys_of f (update_first f (bson vo) u c) =
     keys_of f c @ (if bson vo \<in> set (keys_of f c) then [] else [bson vo])"
  by (induction c) (auto simp: keys_of_def field_value_set field_value_insert)

lemma keys_of_run_op:
  assumes "keyed_op f op"
  shows "keys_of f (run_op op c) =
     keys_of f c @ (if bson (op_value op) \<in> set (keys_of f c) then [] else [bson (op_value op)])"
proof -
  from assms obtain u where u: "op_set op = JObj u" and m: "map_of u f = op_value op"
    and f: "op_field op = f"
    by (cases "op_set op") (auto simp: keyed_op_def)
  from keys_of_update_first [OF m, of c] u f show ?thesis
    by (simp add: run_op_def)
qed

lemma keys_of_fold:
  "\<forall>op\<in>set ops. keyed_op f op \<Longrightarrow>
   set (keys_of f (fold run_op ops c)) = set (keys_of f c) \<union> (\<lambda>op. bson (op_value op)) ` set ops"
  by (induction ops arbitrary: c) (auto simp: keys_of_run_op)

lemma update_first_other:
  "d \<in> set c \<Longrightarrow> field_value f d \<noteq> v \<Longrightarrow> d \<in> set (update_first f v u c)"
  by (induction c) auto

lemma fold_run_op_other:
  "d \<in> set c \<Longrightarrow> \<forall>op\<in>set ops. op_field op = f \<and> bson (op_value op) \<noteq> field_value f d \<Longrightarrow>
   d \<in> set (fold run_op ops c)"
proof (induction ops arbitrary: c)
  case Nil
  then show ?case by simp
next
  case (Cons op ops)
  from Cons.prems have "d \<in> set (run_op op c)"
    by (auto simp: run_op_def intro: update_first_other)
  with Cons show ?case by simp
qed

lemma update_first_written:
  "\<exists>d\<in>set (update_first f v u c). field_value f d = v \<and> (\<forall>k x. map_of u k = Some x \<longrightarrow> d k = Some x)"
  if "map_of u f = vo" "bson vo = v"
  using that
proof (induction c)
  case Nil
  then show ?case
    using field_value_insert [of u f vo] by (auto simp: map_add_def)
next
  case (Cons a c)
  show ?case
  proof (cases "field_value f a = v")
    case True
    with Cons.prems field_value_set [of u f vo a] have "field_value f (a ++ map_of u) = v"
      by simp
    with True show ?thesis by (auto simp: map_add_def)
  next
    case False
    with Cons show ?thesis by auto
  qed
qed

lemma run_op_written:
  assumes "keyed_op f op"
  shows "\<exists>d\<in>set (run_op op c). field_value f d = bson (op_value op)
           \<and> (\<forall>k x. own_prop (op_set op) k = Some x \<longrightarrow> d k = Some x)"
proof -
  from assms obtain u where u: "op_set op = JObj u" and m: "map_of u f = op_value op"
    and f: "op_field op = f"
    by (cases "op_set op") (auto simp: keyed_op_def)
  from update_first_written [OF m refl, of c] u f show ?thesis
    by (simp add: run_op_def)
qed

lemma fold_run_op_last_writer:
  assumes "keyed_op f op"
    and "\<forall>op'\<in>set post. op_field op' = f \<and> bson (op_value op') \<noteq> bson (op_value op)"
  shows "\<exists>d\<in>set (fold run_op (pre @ op # post) c). field_value f d = bson (op_value op)
           \<and> (\<forall>k x. own_prop (op_set op) k = Some x \<longrightarrow> d k = Some x)"
proof -
  from run_op_written [OF assms(1), of "fold run_op pre c"]
  obtain d where d: "d \<in> set (run_op op (fold run_op pre c))"
    and k: "field_value f d = bson (op_value op)"
    and w: "\<forall>k x. own_prop (op_set op) k = Some x \<longrightarrow> d k = Some x"
    by blast
  from assms(2) k have "\<forall>op'\<in>set post. op_field op' = f \<and> bson (op_value op') \<noteq> field_value f d"
    by simp
  from fold_run_op_other [OF d this] have "d \<in> set (fold run_op (pre @ op # post) c)"
    by simp
  with k w show ?thesis by blast
qed

lemma delete_many_nin:
  "snd (delete_many (FieldNin f vs) c) = filter (\<lambda>d. field_value f d \<in> set vs) c"
  by (simp add: delete_many_def)

lemma delete_many_in:
  "snd (delete_many (FieldIn f vs) c) = filter (\<lambda>d. field_value f d \<notin> set vs) c"
  by (simp add: delete_many_def)

subsection \<open>What a reconciliation does\<close>

lemma prepared_nth:
  "map_throw (\<lambda>(i, doc). member_op (clock i) doc) (enumerate n xs) = Inr prepared \<Longrightarrow>
   length prepared = length xs
   \<and> (\<forall>i<length xs. member_op (clock (n + i)) (xs ! i) = Inr (prepared ! i))"
proof (induction xs arbitrary: n prepared)
  case Nil
  then show ?case by auto
next
  case (Cons x xs)
  from Cons.prems obtain r rs where r: "member_op (clock n) x = Inr r"
    and rs: "map_throw (\<lambda>(i, doc). member_op (clock i) doc) (enumerate (Suc n) xs) = Inr rs"
    and p: "prepared = r # rs"
    by (auto split: sum.splits)
  from Cons.IH [OF rs] r p show ?case
    by (auto simp: nth_Cons split: nat.splits)
qed

lemma member_op_null: "member_op now JNull = Inl TypeError"
  by (simp add: member_op_def)

lemma member_op_cases:
  "doc \<noteq> JNull \<Longrightarrow>
   member_op now doc =
     (if \<not> truthy (parent_id doc) then Inr None
      else case unique_dependents (dependents_of doc) of
             Inl e \<Rightarrow> Inl e
           | Inr out \<Rightarrow>
               Inr (Some (UpdateOne ''parentMemberId'' (parent_id doc)
                 (JObj [(''parentMemberId'', bson (parent_id doc)),
                        (''parentMember'', bson (own_prop doc ''parentMember'')),
                        (''dependentMembers'', JArr out),
                        (''lastSyncedAt'', JDate now)]))))"
  by (simp add: member_op_def get_prop_cases parent_id_def dependents_of_def Let_def
        split: sum.split)

lemma member_op_Some:
  assumes "member_op now doc = Inr (Some op)"
  shows "truthy (parent_id doc) \<and> op_field op = ''parentMemberId'' \<and> op_value op = parent_id doc
       \<and> (\<exists>out. unique_dependents (dependents_of doc) = Inr out
            \<and> op_set op = JObj [(''parentMemberId'', bson (parent_id doc)),
                                (''parentMember'', bson (own_prop doc ''parentMember'')),
                                (''dependentMembers'', JArr out),
                                (''lastSyncedAt'', JDate now)])"
proof -
  from assms have "doc \<noteq> JNull" by (auto simp: member_op_null)
  from assms show ?thesis
    unfolding member_op_cases [OF \<open>doc \<noteq> JNull\<close>]
    by (auto split: if_splits sum.splits)
qed

lemma member_op_None: "member_op now doc = Inr None \<Longrightarrow> \<not> truthy (parent_id doc)"
proof -
  assume a: "member_op now doc = Inr None"
  then have "doc \<noteq> JNull" by (auto simp: member_op_null)
  from a show ?thesis
    unfolding member_op_cases [OF \<open>doc \<noteq> JNull\<close>]
    by (auto split: if_splits sum.splits)
qed

lemma truthy_bson: "truthy v \<Longrightarrow> Some (bson v) = v"
  by (cases v) (simp_all add: bson_def)

lemma member_op_keyed:
  assumes "member_op now doc = Inr (Some op)"
  shows "keyed_op ''parentMemberId'' op"
  using member_op_Some [OF assms] by (auto simp: keyed_op_def truthy_bson)

lemma somes_set: "set [op. Some op \<leftarrow> prepared] = {op. Some op \<in> set prepared}"
  by (induction prepared) (auto split: option.splits)

lemma filter_boolean_set: "set (filter_boolean vs) = {v. Some v \<in> set vs \<and> truthy (Some v)}"
  by (induction vs) (auto simp: filter_boolean_def split: option.splits)

lemma parent_ids_pure:
  "JNull \<notin> set xs \<Longrightarrow> map_throw parent_member_id xs = Inr (map parent_id xs)"
  using map_throw_null [OF parent_member_id_cases, of xs] by (simp add: parent_id_def)

lemma parent_ids_null:
  "JNull \<in> set xs \<Longrightarrow> map_throw parent_member_id xs = Inl TypeError"
  using map_throw_null [OF parent_member_id_cases, of xs] by simp

text \<open>What a successful reconciliation has done.\<close>

lemma sync_member_success:
  assumes ok: "status (sync_member_dependencies clock payload db) = 200"
  shows "\<exists>prepared.
      JNull \<notin> set (elems payload)
    \<and> map_throw (\<lambda>(i, doc). member_op (clock i) doc) (enumerate 0 (elems payload)) = Inr prepared
    \<and> filter_boolean (map parent_id (elems payload)) \<noteq> []
    \<and> store (sync_member_dependencies clock payload db) =
        db(''MemberDependencies'' :=
          filter (\<lambda>d. field_value ''parentMemberId'' d
                        \<in> set (filter_boolean (map parent_id (elems payload))))
            (fold run_op [op. Some op \<leftarrow> prepared] (db ''MemberDependencies'')))
    \<and> calls (sync_member_dependencies clock payload db) =
        Connect # (if [op. Some op \<leftarrow> prepared] = [] then []
                   else [BulkWrite ''MemberDependencies'' [op. Some op \<leftarrow> prepared]])
        @ [DeleteMany ''MemberDependencies''
             (FieldNin ''parentMemberId'' (filter_boolean (map parent_id (elems payload)))), Close]"
proof -
  let ?xs = "elems payload"
  from ok have arr: "is_array payload" and ne: "?xs \<noteq> []"
    by (auto simp: sync_member_dependencies_def split: if_splits)
  have nn: "JNull \<notin> set ?xs"
  proof
    assume "JNull \<in> set ?xs"
    then have "map_throw parent_member_id ?xs = Inl TypeError" by (rule parent_ids_null)
    with ok arr ne show False by (simp add: sync_member_dependencies_def)
  qed
  then have ids: "map_throw parent_member_id ?xs = Inr (map parent_id ?xs)"
    by (rule parent_ids_pure)
  from ok arr ne ids have idsne: "filter_boolean (map parent_id ?xs) \<noteq> []"
    by (auto simp: sync_member_dependencies_def Let_def split: if_splits)
  from ok arr ne ids idsne obtain prepared where
    prep: "map_throw (\<lambda>(i, doc). member_op (clock i) doc) (enumerate 0 ?xs) = Inr prepared"
    by (cases "map_throw (\<lambda>(i, doc). member_op (clock i) doc) (enumerate 0 ?xs)")
       (auto simp: sync_member_dependencies_def Let_def)
  have objs: "\<forall>op\<in>set [op. Some op \<leftarrow> prepared]. is_object (op_set op)"
  proof
    fix op assume "op \<in> set [op. Some op \<leftarrow> prepared]"
    then have "Some op \<in> set prepared" by (simp add: somes_set)
    then obtain i where i: "i < length prepared" and pi: "prepared ! i = Some op"
      by (auto simp: in_set_conv_nth)
    with prepared_nth [OF prep] have "member_op (clock (0 + i)) (?xs ! i) = Inr (Some op)"
      by auto
    from member_op_keyed [OF this] show "is_object (op_set op)"
      by (simp add: keyed_op_def)
  qed
  define B where "B = [op. Some op \<leftarrow> prepared]"
  from objs have bw: "bulk_write B (db ''MemberDependencies'')
          = (None, fold run_op B (db ''MemberDependencies''))"
    unfolding B_def by (rule bulk_write_objects)
  have unf: "sync_member_dependencies clock payload db =
      (let coll = db ''MemberDependencies'';
           (failure, c1, written) =
              (if length B > 0
               then (case bulk_write B coll of
                       (e, c') \<Rightarrow> (e, c', [BulkWrite ''MemberDependencies'' B]))
               else (None, coll, []))
       in case failure of
            Some e \<Rightarrow>
              \<lparr>status = 500, body = Error_thrown e,
               store = db(''MemberDependencies'' := c1),
               calls = Connect # written\<rparr>
          | None \<Rightarrow>
              (let flt = FieldNin ''parentMemberId'' (filter_boolean (map parent_id ?xs));
                   (deleted, c2) = delete_many flt c1
               in \<lparr>status = 200,
                   body = Snapshot_completed (length B) deleted,
                   store = db(''MemberDependencies'' := c2),
                   calls = Connect # written @
                     [DeleteMany ''MemberDependencies'' flt, Close]\<rparr>))"
    using arr ne ids idsne prep unfolding B_def
    by (simp add: sync_member_dependencies_def Let_def)
  have "store (sync_member_dependencies clock payload db) =
        db(''MemberDependencies'' :=
          filter (\<lambda>d. field_value ''parentMemberId'' d
                        \<in> set (filter_boolean (map parent_id (elems payload))))
            (fold run_op B (db ''MemberDependencies'')))
    \<and> calls (sync_member_dependencies clock payload db) =
        Connect # (if B = [] then [] else [BulkWrite ''MemberDependencies'' B])
        @ [DeleteMany ''MemberDependencies''
             (FieldNin ''parentMemberId'' (filter_boolean (map parent_id (elems payload)))), Close]"
    unfolding unf using bw
    by (cases "B = []") (simp_all add: Let_def delete_many_def)
  then show ?thesis using nn prep idsne unfolding B_def by blast
qed

lemma somes_append:
  "[op. Some op \<leftarrow> xs @ ys] = [op. Some op \<leftarrow> xs] @ [op. Some op \<leftarrow> ys]"
  by simp

lemma field_value_Some: "field_value f d = v \<Longrightarrow> v \<noteq> JNull \<Longrightarrow> d f = Some v"
  by (cases "d f") (simp_all add: field_value_def bson_def)

lemma truthy_not_null: "truthy (Some v) \<Longrightarrow> v \<noteq> JNull"
  by auto

lemma prepared_keyed:
  assumes "map_throw (\<lambda>(i, doc). member_op (clock i) doc) (enumerate 0 xs) = Inr prepared"
  shows "\<forall>op\<in>set [op. Some op \<leftarrow> prepared]. keyed_op ''parentMemberId'' op"
proof
  fix op assume "op \<in> set [op. Some op \<leftarrow> prepared]"
  then have "Some op \<in> set prepared" by (simp add: somes_set)
  then obtain i where i: "i < length prepared" and pi: "prepared ! i = Some op"
    by (auto simp: in_set_conv_nth)
  with prepared_nth [OF assms] have "member_op (clock (0 + i)) (xs ! i) = Inr (Some op)"
    by auto
  then show "keyed_op ''parentMemberId'' op" by (rule member_op_keyed)
qed

lemma prepared_record:
  assumes prep: "map_throw (\<lambda>(i, doc). member_op (clock i) doc) (enumerate 0 xs) = Inr prepared"
    and i: "i < length xs" and t: "truthy (parent_id (xs ! i))"
  shows "\<exists>out. unique_dependents (dependents_of (xs ! i)) = Inr out
     \<and> prepared ! i = Some (UpdateOne ''parentMemberId'' (parent_id (xs ! i))
         (JObj [(''parentMemberId'', bson (parent_id (xs ! i))),
                (''parentMember'', bson (own_prop (xs ! i) ''parentMember'')),
                (''dependentMembers'', JArr out),
                (''lastSyncedAt'', JDate (clock i))]))"
proof -
  from prepared_nth [OF prep] i have m: "member_op (clock i) (xs ! i) = Inr (prepared ! i)"
    by auto
  show ?thesis
  proof (cases "prepared ! i")
    case None
    with m t member_op_None show ?thesis by auto
  next
    case (Some op)
    with m have "member_op (clock i) (xs ! i) = Inr (Some op)" by simp
    from member_op_Some [OF this] Some show ?thesis
      by (cases op) auto
  qed
qed



lemmas member_eval =
  sync_member_dependencies_def member_op_def unique_dependents_def filter_boolean_def
  parent_member_id_def delete_many_def field_value_def bson_def Let_def
  empty_database_def epoch_def

lemma example_outcome:
  "status (sync_member_dependencies epoch example_batch example_database) = 200"
  by (simp add: member_eval example_batch_def example_database_def)



lemma filter_boolean_map_set:
  "set (filter_boolean (map g xs)) = {v. \<exists>x\<in>set xs. g x = Some v \<and> truthy (Some v)}"
  by (induction xs) (auto simp: filter_boolean_def split: option.splits)






subsection \<open>Applying a batch of upserts twice\<close>

lemma keyed_op_fields:
  assumes "keyed_op f op"
  shows "op_field op = f" and "map_of (set_fields (op_set op)) f = op_value op"
  using assms by (cases "op_set op"; simp add: keyed_op_def)+

lemma field_value_merged:
  "\<forall>op\<in>set ops. keyed_op f op \<Longrightarrow> field_value f d = k \<Longrightarrow>
   field_value f (d ++ merged k ops) = k"
proof (induction ops arbitrary: d)
  case Nil
  then show ?case by simp
next
  case (Cons op ops)
  let ?m = "if bson (op_value op) = k then map_of (set_fields (op_set op)) else Map.empty"
  from Cons.prems have ko: "keyed_op f op" by simp
  have "field_value f (d ++ ?m) = k"
  proof (cases "bson (op_value op) = k")
    case True
    with field_value_set [OF keyed_op_fields(2) [OF ko], of d] Cons.prems(2) show ?thesis
      by simp
  next
    case False
    with Cons.prems(2) show ?thesis by simp
  qed
  with Cons.IH [of "d ++ ?m"] Cons.prems(1) have "field_value f ((d ++ ?m) ++ merged k ops) = k"
    by simp
  then show ?case by simp
qed

lemma fold_run_op_Cons:
  "\<forall>op\<in>set ops. keyed_op f op \<Longrightarrow>
   fold run_op ops (d # ds) =
     (d ++ merged (field_value f d) ops)
       # fold run_op [op \<leftarrow> ops. bson (op_value op) \<noteq> field_value f d] ds"
proof (induction ops arbitrary: d ds)
  case Nil
  then show ?case by simp
next
  case (Cons op ops)
  from Cons.prems have ko: "keyed_op f op" and rest: "\<forall>op\<in>set ops. keyed_op f op"
    by simp_all
  note fs = keyed_op_fields [OF ko]
  show ?case
  proof (cases "field_value f d = bson (op_value op)")
    case True
    let ?d = "d ++ map_of (set_fields (op_set op))"
    from True have step: "run_op op (d # ds) = ?d # ds"
      by (simp add: run_op_def fs)
    from field_value_set [OF fs(2), of d] True have key: "field_value f ?d = field_value f d"
      by simp
    from Cons.IH [OF rest, of ?d ds] step key True show ?thesis
      by simp
  next
    case False
    then have step: "run_op op (d # ds) = d # run_op op ds"
      by (simp add: run_op_def fs)
    from False have ne: "bson (op_value op) \<noteq> field_value f d" by auto
    from Cons.IH [OF rest, of d "run_op op ds"] step ne show ?thesis
      by simp
  qed
qed

lemma map_add_twice: "(m ++ a) ++ a = m ++ a"
  by (rule ext) (simp add: map_add_def split: option.split)

lemma map_add_again: "((k ++ u) ++ m) ++ (u ++ m) = (k ++ u) ++ m"
  by (rule ext) (simp add: map_add_def split: option.split)

lemma keyed_filter:
  "\<forall>op\<in>set ops. keyed_op f op \<Longrightarrow> \<forall>op\<in>set (filter P ops). keyed_op f op"
  by simp

lemma fold_run_op_idem_empty:
  "\<forall>op\<in>set ops. keyed_op f op \<Longrightarrow>
   fold run_op ops (fold run_op ops []) = fold run_op ops []"
proof (induction "length ops" arbitrary: ops rule: less_induct)
  case less
  show ?case
  proof (cases ops)
    case Nil
    then show ?thesis by simp
  next
    case (Cons op rest)
    with less.prems have ko: "keyed_op f op" and kr: "\<forall>op\<in>set rest. keyed_op f op"
      by simp_all
    note fs = keyed_op_fields [OF ko]
    let ?v = "bson (op_value op)"
    let ?u = "map_of (set_fields (op_set op))"
    let ?t0 = "[f \<mapsto> ?v] ++ ?u"
    let ?rest' = "[op' \<leftarrow> rest. bson (op_value op') \<noteq> ?v]"
    let ?T = "?t0 ++ merged ?v rest"
    let ?R = "fold run_op ?rest' []"
    have k0: "field_value f ?t0 = ?v"
      using field_value_insert [OF fs(2)] .
    have first: "fold run_op ops [] = ?T # ?R"
      using fold_run_op_Cons [OF kr, of ?t0 "[]"] k0 Cons
      by (simp add: run_op_def fs)
    have kT: "field_value f ?T = ?v"
      using field_value_merged [OF kr k0] .
    have kall: "\<forall>op\<in>set ops. keyed_op f op" by (rule less.prems)
    have second: "fold run_op ops (?T # ?R) =
        (?T ++ merged ?v ops) # fold run_op [op' \<leftarrow> ops. bson (op_value op') \<noteq> ?v] ?R"
      using fold_run_op_Cons [OF kall, of ?T ?R] kT by simp
    have m: "?T ++ merged ?v ops = ?T"
    proof -
      have "merged ?v ops = ?u ++ merged ?v rest"
        using Cons by simp
      then show ?thesis
        by (simp only: map_add_again)
    qed
    have flt: "[op' \<leftarrow> ops. bson (op_value op') \<noteq> ?v] = ?rest'"
      using Cons by simp
    have "length ?rest' < length ops"
      using Cons by (simp add: le_imp_less_Suc)
    from less.hyps [OF this] kr have "fold run_op ?rest' ?R = ?R"
      by simp
    with first second m flt show ?thesis by simp
  qed
qed

lemma fold_run_op_idem:
  "\<forall>op\<in>set ops. keyed_op f op \<Longrightarrow>
   fold run_op ops (fold run_op ops c) = fold run_op ops c"
proof (induction c arbitrary: ops)
  case Nil
  then show ?case by (rule fold_run_op_idem_empty)
next
  case (Cons d ds)
  let ?k = "field_value f d"
  let ?ops' = "[op \<leftarrow> ops. bson (op_value op) \<noteq> ?k]"
  let ?d = "d ++ merged ?k ops"
  have first: "fold run_op ops (d # ds) = ?d # fold run_op ?ops' ds"
    using Cons.prems by (rule fold_run_op_Cons)
  have kd: "field_value f ?d = ?k"
    using field_value_merged [OF Cons.prems refl] .
  have second: "fold run_op ops (?d # fold run_op ?ops' ds) =
      (?d ++ merged ?k ops) # fold run_op ?ops' (fold run_op ?ops' ds)"
    using fold_run_op_Cons [OF Cons.prems, of ?d "fold run_op ?ops' ds"] kd by simp
  have "\<forall>op\<in>set ?ops'. keyed_op f op"
    using Cons.prems by simp
  from Cons.IH [OF this] first second show ?case
    by (simp add: map_add_twice)
qed

subsection \<open>What the flat endpoints do\<close>

lemma prompt_op_cases:
  "prompt_op doc = (if doc = JNull then Inl TypeError else Inr (prompt_update doc))"
  by (simp add: prompt_op_def prompt_update_def get_prop_cases)

lemma prompt_ops:
  "map_throw prompt_op xs = (if JNull \<in> set xs then Inl TypeError else Inr (map prompt_update xs))"
  by (rule map_throw_null) (rule prompt_op_cases)

lemma prompt_update_keyed: "is_object doc \<Longrightarrow> keyed_op ''promptVersionId'' (prompt_update doc)"
  by (simp add: keyed_op_def prompt_update_def)

lemma takeWhile_prompt:
  "takeWhile (\<lambda>op. is_object (op_set op)) (map prompt_update xs) = map prompt_update (takeWhile is_object xs)"
  by (induction xs) (simp_all add: prompt_update_def)

text \<open>What the flat sync leaves in the database, whatever the response.\<close>

lemma sync_prompt_store:
  "store (sync_prompt_versions q payload db) =
     (if elems payload \<noteq> [] \<and> JNull \<notin> set (elems payload)
      then db(domain_of q :=
             fold run_op (map prompt_update (takeWhile is_object (elems payload))) (db (domain_of q)))
      else db)"
proof (cases "elems payload \<noteq> [] \<and> JNull \<notin> set (elems payload)")
  case False
  then show ?thesis
    by (auto simp: sync_prompt_versions_def prompt_ops Let_def split: prod.splits option.splits)
next
  case True
  then have arr: "is_array payload" by (cases payload) simp_all
  obtain e c' where bw: "bulk_write (map prompt_update (elems payload)) (db (domain_of q)) = (e, c')"
    by (cases "bulk_write (map prompt_update (elems payload)) (db (domain_of q))")
  then have c': "c' = fold run_op (map prompt_update (takeWhile is_object (elems payload))) (db (domain_of q))"
    by (simp add: bulk_write_fold takeWhile_prompt)
  from True arr bw c' show ?thesis
    by (cases e) (simp_all add: sync_prompt_versions_def prompt_ops Let_def)
qed

lemma sync_prompt_success:
  assumes "status (sync_prompt_versions q payload db) = 200"
  shows "elems payload \<noteq> [] \<and> (\<forall>p\<in>set (elems payload). is_object p)
       \<and> store (sync_prompt_versions q payload db) =
           db(domain_of q := fold run_op (map prompt_update (elems payload)) (db (domain_of q)))"
proof -
  let ?xs = "elems payload"
  from assms have arr: "is_array payload" and ne: "?xs \<noteq> []"
    by (auto simp: sync_prompt_versions_def Let_def split: if_splits)
  have nn: "JNull \<notin> set ?xs"
  proof
    assume "JNull \<in> set ?xs"
    with assms arr ne show False
      by (simp add: sync_prompt_versions_def prompt_ops Let_def)
  qed
  obtain e c' where bw: "bulk_write (map prompt_update ?xs) (db (domain_of q)) = (e, c')"
    by (cases "bulk_write (map prompt_update ?xs) (db (domain_of q))")
  with assms arr ne nn have "e = None"
    by (cases e) (simp_all add: sync_prompt_versions_def prompt_ops Let_def)
  with bw have "list_all (\<lambda>op. is_object (op_set op)) (map prompt_update ?xs)"
    by (simp add: bulk_write_fold split: if_splits)
  then have objs: "\<forall>p\<in>set ?xs. is_object p"
    by (simp add: list_all_iff prompt_update_def)
  then have "takeWhile is_object ?xs = ?xs"
    by (simp add: takeWhile_eq_all_conv)
  with sync_prompt_store [of q payload db] ne nn objs show ?thesis
    by simp
qed

lemma set_fields_own_prop: "map_of (set_fields p) k = own_prop p k"
  by (cases p) simp_all

lemma update_first_frame:
  "length c \<le> length (update_first f v u c)
   \<and> (\<forall>n<length c. map_of u k = None \<longrightarrow> (update_first f v u c ! n) k = (c ! n) k)"
proof (induction c)
  case Nil
  then show ?case by simp
next
  case (Cons d ds)
  show ?case
  proof (cases "field_value f d = v")
    case True
    then show ?thesis
      by (auto simp: nth_Cons map_add_def split: nat.splits)
  next
    case False
    with Cons show ?thesis
      by (auto simp: nth_Cons split: nat.splits)
  qed
qed

lemma fold_run_op_frame:
  "\<forall>op\<in>set ops. own_prop (op_set op) k = None \<Longrightarrow>
   length c \<le> length (fold run_op ops c)
   \<and> (\<forall>n<length c. (fold run_op ops c ! n) k = (c ! n) k)"
proof (induction ops arbitrary: c)
  case Nil
  then show ?case by simp
next
  case (Cons op ops)
  from Cons.prems have k: "map_of (set_fields (op_set op)) k = None"
    by (simp add: set_fields_own_prop)
  from update_first_frame [of c "op_field op" "bson (op_value op)" "set_fields (op_set op)" k] k
  have l: "length c \<le> length (run_op op c)"
    and s: "\<forall>n<length c. (run_op op c ! n) k = (c ! n) k"
    by (simp_all add: run_op_def)
  from Cons.IH [of "run_op op c"] Cons.prems
  have l': "length (run_op op c) \<le> length (fold run_op ops (run_op op c))"
    and s': "\<forall>n<length (run_op op c). (fold run_op ops (run_op op c) ! n) k = (run_op op c ! n) k"
    by simp_all
  from l l' s s' show ?case by auto
qed

lemma fold_run_op_length: "length c \<le> length (fold run_op ops c)"
proof (induction ops arbitrary: c)
  case Nil
  then show ?case by simp
next
  case (Cons op ops)
  from update_first_frame [of c "op_field op" "bson (op_value op)" "set_fields (op_set op)"]
  have "length c \<le> length (run_op op c)"
    by (simp add: run_op_def)
  with Cons [of "run_op op c"] show ?case by simp
qed

lemma merge_outcome: "status (sync_prompt_versions None merge_batch merge_database) = 200"
  by (simp add: sync_prompt_versions_def prompt_op_def domain_of_def merge_batch_def
        merge_database_def empty_database_def field_value_def bson_def Let_def)

lemma prompt_id_reads:
  "map_throw (\<lambda>p. get_prop p ''promptVersionId'') xs =
     (if JNull \<in> set xs then Inl TypeError else Inr (map (\<lambda>p. own_prop p ''promptVersionId'') xs))"
  by (rule map_throw_null) (rule get_prop_cases)

lemma field_value_in_truthy:
  assumes "\<forall>v\<in>set vs. truthy (Some v)"
  shows "field_value f d \<in> set vs \<longleftrightarrow> (\<exists>v\<in>set vs. d f = Some v)"
proof
  assume m: "field_value f d \<in> set vs"
  with assms have "field_value f d \<noteq> JNull" by (auto dest: truthy_not_null)
  with m show "\<exists>v\<in>set vs. d f = Some v"
    by (auto simp: field_value_Some)
next
  assume "\<exists>v\<in>set vs. d f = Some v"
  then show "field_value f d \<in> set vs"
    by (auto simp: field_value_def bson_def)
qed

lemma prompt_ids_truthy: "\<forall>v\<in>set (prompt_ids payload). truthy (Some v)"
  by (simp add: prompt_ids_def filter_boolean_set)

lemma distinct_keys_fold:
  "\<forall>op\<in>set ops. keyed_op f op \<Longrightarrow> distinct (keys_of f c) \<Longrightarrow>
   distinct (keys_of f (fold run_op ops c))"
  by (induction ops arbitrary: c) (simp_all add: keys_of_run_op)

lemma sync_prompt_accepts:
  assumes "elems payload \<noteq> []" and "\<forall>p\<in>set (elems payload). is_object p"
  shows "status (sync_prompt_versions q payload db) = 200"
proof -
  from assms(1) have arr: "is_array payload" by (cases payload) simp_all
  from assms(2) have nn: "JNull \<notin> set (elems payload)" by auto
  from assms(2) have "\<forall>op\<in>set (map prompt_update (elems payload)). is_object (op_set op)"
    by (simp add: prompt_update_def)
  from bulk_write_objects [OF this] arr nn assms(1) show ?thesis
    by (simp add: sync_prompt_versions_def prompt_ops Let_def)
qed

section \<open>Rejected payloads\<close>

text \<open>
  Claim C6. A payload that is not an array, or is the empty array, is answered with status
  400 by the flat sync endpoint and by the reconciliation endpoint alike; neither makes a
  single call on the store (no connection, no write, no delete) and the database is the
  one it was.
\<close>

theorem empty_payload_rejected:
  assumes "\<not> is_array payload \<or> elems payload = []"
  shows "status (sync_prompt_versions q payload db) = 400
       \<and> calls (sync_prompt_versions q payload db) = []
       \<and> store (sync_prompt_versions q payload db) = db
       \<and> status (sync_member_dependencies clock payload db) = 400
       \<and> calls (sync_member_dependencies clock payload db) = []
       \<and> store (sync_member_dependencies clock payload db) = db"
  using assms by (auto simp: sync_prompt_versions_def sync_member_dependencies_def)

theorem empty_payload_rejected_witness:
  "status (sync_prompt_versions None (JArr []) empty_database) = 400
 \<and> calls (sync_prompt_versions None (JArr []) empty_database) = []
 \<and> store (sync_prompt_versions None (JArr []) empty_database) = empty_database
 \<and> status (sync_member_dependencies epoch (JObj [(''a'', JNum 1)]) empty_database) = 400
 \<and> calls (sync_member_dependencies epoch (JObj [(''a'', JNum 1)]) empty_database) = []
 \<and> store (sync_member_dependencies epoch (JObj [(''a'', JNum 1)]) empty_database) = empty_database"
  using empty_payload_rejected [of "JArr []" None empty_database epoch]
        empty_payload_rejected [of "JObj [(''a'', JNum 1)]" None empty_database epoch]
  by simp

section \<open>A batch without any parent id\<close>

text \<open>
  Claim C5, as the code has it. When no record of the batch has a resolvable parent id, the
  reconciliation endpoint changes nothing: the database is the one it was and the only
  calls on the store are the opening and the closing of the connection (no write, no
  delete). The call fails with status 400 when no element of the batch is \<^verbatim>\<open>null\<close>; a
  \<^verbatim>\<open>null\<close> element makes \<^verbatim>\<open>p.parentMember\<close> throw, and the call fails with status 500.
\<close>

theorem no_parent_no_write:
  assumes "\<forall>p\<in>set (elems payload). \<not> resolvable_parent p"
  shows "store (sync_member_dependencies clock payload db) = db
       \<and> (\<forall>c\<in>set (calls (sync_member_dependencies clock payload db)). c = Connect \<or> c = Close)
       \<and> (JNull \<notin> set (elems payload) \<longrightarrow> status (sync_member_dependencies clock payload db) = 400)
       \<and> (JNull \<in> set (elems payload) \<longrightarrow> status (sync_member_dependencies clock payload db) = 500)"
proof (cases "JNull \<in> set (elems payload)")
  case True
  then have "map_throw parent_member_id (elems payload) = Inl TypeError"
    by (simp add: map_throw_null [OF parent_member_id_cases])
  with True elems_nonempty_is_array [OF True] show ?thesis
    by (auto simp: sync_member_dependencies_def)
next
  case False
  let ?g = "\<lambda>p. opt_chain (own_prop p ''parentMember'') ''parentMemberId''"
  from False have m: "map_throw parent_member_id (elems payload) = Inr (map ?g (elems payload))"
    by (simp add: map_throw_null [OF parent_member_id_cases])
  have "\<forall>v\<in>set (map ?g (elems payload)). \<not> truthy v"
    using assms False by (auto simp: resolvable_parent_iff)
  then have "filter_boolean (map ?g (elems payload)) = []"
    by (rule filter_boolean_empty)
  with m False show ?thesis
    by (auto simp: sync_member_dependencies_def Let_def)
qed

theorem no_parent_no_write_witness:
  "status (sync_member_dependencies epoch (JArr [JObj [(''parentMember'', JNull)], JNum 5]) empty_database) = 400
 \<and> store (sync_member_dependencies epoch (JArr [JObj [(''parentMember'', JNull)], JNum 5]) empty_database) = empty_database"
  using no_parent_no_write [of "JArr [JObj [(''parentMember'', JNull)], JNum 5]" epoch empty_database]
  by (simp add: resolvable_parent_def parent_member_id_def)

text \<open>
  The batch \<^verbatim>\<open>[null]\<close> has no record with a resolvable parent id, and is answered with
  status 500, not with a client error.
\<close>

theorem null_record_server_error:
  "\<not> resolvable_parent JNull
 \<and> status (sync_member_dependencies epoch (JArr [JNull]) empty_database) = 500
 \<and> body (sync_member_dependencies epoch (JArr [JNull]) empty_database) = Error_thrown TypeError
 \<and> calls (sync_member_dependencies epoch (JArr [JNull]) empty_database) = [Connect]"
  by (simp add: resolvable_parent_def parent_member_id_def sync_member_dependencies_def)

section \<open>Records without an id in the flat sync\<close>

text \<open>
  Claim C4 says that a record without \<^verbatim>\<open>promptVersionId\<close> is left out of the operations
  of the flat sync. The handler maps every record to an \<^verbatim>\<open>updateOne\<close>: for the batch
  \<^verbatim>\<open>[{promptVersionId: "A", x: 1}, {x: 2}]\<close> on an empty collection it submits two
  operations, the second filtering on \<^verbatim>\<open>undefined\<close>, the collection ends with two
  documents, the second one written for the record that has no id, and the count is 2.
\<close>

theorem idless_record_is_written:
  "calls (sync_prompt_versions None
      (JArr [JObj [(''promptVersionId'', JStr ''A''), (''x'', JNum 1)], JObj [(''x'', JNum 2)]])
      empty_database)
   = [Connect,
      BulkWrite ''Prompt''
        [UpdateOne ''promptVersionId'' (Some (JStr ''A'')) (JObj [(''promptVersionId'', JStr ''A''), (''x'', JNum 1)]),
         UpdateOne ''promptVersionId'' None (JObj [(''x'', JNum 2)])],
      Close]
 \<and> length (store (sync_prompt_versions None
      (JArr [JObj [(''promptVersionId'', JStr ''A''), (''x'', JNum 1)], JObj [(''x'', JNum 2)]])
      empty_database) ''Prompt'') = 2
 \<and> body (sync_prompt_versions None
      (JArr [JObj [(''promptVersionId'', JStr ''A''), (''x'', JNum 1)], JObj [(''x'', JNum 2)]])
      empty_database) = Upsert_completed ''Prompt'' 2
 \<and> (store (sync_prompt_versions None
      (JArr [JObj [(''promptVersionId'', JStr ''A''), (''x'', JNum 1)], JObj [(''x'', JNum 2)]])
      empty_database) ''Prompt'' ! 1) ''x'' = Some (JNum 2)"
  by (simp add: sync_prompt_versions_def prompt_op_def domain_of_def empty_database_def
        field_value_def bson_def Let_def)

theorem idless_record_is_written_witness:
  "length (store (sync_prompt_versions None
      (JArr [JObj [(''promptVersionId'', JStr ''A''), (''x'', JNum 1)], JObj [(''x'', JNum 2)]])
      empty_database) ''Prompt'') \<noteq> 1"
  using idless_record_is_written by simp

section \<open>Reconciliation\<close>

text \<open>
  Claim C1. The parent ids of the batch and the \<^verbatim>\<open>parentMemberId\<close> values already stored
  are scalars (strings, numbers, booleans; a stored document may also lack the field).
  After a successful call of the reconciliation endpoint (status 200, which needs a
  non-empty batch with at least one resolvable parent id), the \<^verbatim>\<open>parentMemberId\<close> values
  present in the collection \<^verbatim>\<open>MemberDependencies\<close> are exactly the resolvable (truthy)
  \<^verbatim>\<open>parentMemberId\<close> values of the batch: every one of them is stored, and every document
  that is left carries one of them, so a document whose key is absent from the batch, or
  that has no key, has been deleted.
\<close>

theorem reconciliation_completeness:
  assumes ok: "status (sync_member_dependencies clock payload db) = 200"
    and "scalar_parent_ids payload"
    and "scalar_field ''parentMemberId'' (db ''MemberDependencies'')"
  shows "{v. \<exists>d\<in>set (store (sync_member_dependencies clock payload db) ''MemberDependencies'').
               d ''parentMemberId'' = Some v}
       = {v. \<exists>p\<in>set (elems payload). parent_member_id p = Inr (Some v) \<and> truthy (Some v)}
       \<and> (\<forall>d\<in>set (store (sync_member_dependencies clock payload db) ''MemberDependencies'').
            \<exists>p\<in>set (elems payload). parent_member_id p = Inr (d ''parentMemberId'')
              \<and> truthy (d ''parentMemberId''))"
proof -
  let ?xs = "elems payload"
  let ?res = "sync_member_dependencies clock payload db"
  let ?f = "''parentMemberId''"
  let ?ids = "filter_boolean (map parent_id ?xs)"
  from sync_member_success [OF ok] obtain prepared where
    nn: "JNull \<notin> set ?xs"
    and prep: "map_throw (\<lambda>(i, doc). member_op (clock i) doc) (enumerate 0 ?xs) = Inr prepared"
    and st: "store ?res ''MemberDependencies'' =
          filter (\<lambda>d. field_value ?f d \<in> set ?ids)
            (fold run_op [op. Some op \<leftarrow> prepared] (db ''MemberDependencies''))"
    by auto
  define B where "B = [op. Some op \<leftarrow> prepared]"
  have pm: "parent_member_id p = Inr (parent_id p)" if "p \<in> set ?xs" for p
    using that nn by (auto simp: parent_member_id_cases parent_id_def)
  have ids: "set ?ids = {v. \<exists>p\<in>set ?xs. parent_member_id p = Inr (Some v) \<and> truthy (Some v)}"
  proof -
    have "(\<exists>p\<in>set ?xs. parent_id p = Some v \<and> truthy (Some v))
        \<longleftrightarrow> (\<exists>p\<in>set ?xs. parent_member_id p = Inr (Some v) \<and> truthy (Some v))" for v
      using pm by (metis sum.inject(2))
    then show ?thesis by (simp add: filter_boolean_map_set)
  qed
  have keyed: "\<forall>op\<in>set B. keyed_op ?f op"
    unfolding B_def using prep by (rule prepared_keyed)
  have stored_key: "field_value ?f d \<in> set ?ids \<and> d ?f = Some (field_value ?f d)"
    if "d \<in> set (store ?res ''MemberDependencies'')" for d
  proof -
    from that st have m: "field_value ?f d \<in> set ?ids" by simp
    then have "truthy (Some (field_value ?f d))" by (simp add: filter_boolean_set)
    then have "field_value ?f d \<noteq> JNull" by (rule truthy_not_null)
    with m show ?thesis by (simp add: field_value_Some)
  qed
  have present: "\<exists>d\<in>set (store ?res ''MemberDependencies''). d ?f = Some v" if v: "v \<in> set ?ids" for v
  proof -
    from v obtain i where i: "i < length ?xs" and p: "parent_id (?xs ! i) = Some v"
      and t: "truthy (Some v)"
      by (auto simp: filter_boolean_set in_set_conv_nth)
    from prepared_record [OF prep i] p t obtain op where "prepared ! i = Some op"
      and "op_value op = Some v"
      by auto
    moreover from prepared_nth [OF prep] i have "i < length prepared" by simp
    ultimately have "op \<in> set B" and "bson (op_value op) = v"
      unfolding B_def by (auto simp: somes_set bson_def in_set_conv_nth)
    with keys_of_fold [OF keyed, of "db ''MemberDependencies''"]
    have "v \<in> set (keys_of ?f (fold run_op B (db ''MemberDependencies'')))"
      by auto
    then obtain d where d: "d \<in> set (fold run_op B (db ''MemberDependencies''))"
      and k: "field_value ?f d = v"
      by (auto simp: keys_of_def)
    with v have "d \<in> set (store ?res ''MemberDependencies'')"
      by (simp add: st B_def)
    moreover from k t have "d ?f = Some v"
      by (simp add: field_value_Some truthy_not_null)
    ultimately show ?thesis by blast
  qed
  have eq: "{v. \<exists>d\<in>set (store ?res ''MemberDependencies''). d ?f = Some v} = set ?ids"
  proof (rule set_eqI)
    fix v
    show "v \<in> {v. \<exists>d\<in>set (store ?res ''MemberDependencies''). d ?f = Some v} \<longleftrightarrow> v \<in> set ?ids"
    proof
      assume "v \<in> {v. \<exists>d\<in>set (store ?res ''MemberDependencies''). d ?f = Some v}"
      then obtain d where "d \<in> set (store ?res ''MemberDependencies'')" and "d ?f = Some v"
        by blast
      with stored_key [of d] show "v \<in> set ?ids" by simp
    next
      assume "v \<in> set ?ids"
      from present [OF this] show "v \<in> {v. \<exists>d\<in>set (store ?res ''MemberDependencies''). d ?f = Some v}"
        by simp
    qed
  qed
  have all: "\<exists>p\<in>set ?xs. parent_member_id p = Inr (d ?f) \<and> truthy (d ?f)"
    if d: "d \<in> set (store ?res ''MemberDependencies'')" for d
  proof -
    from stored_key [OF d] have "field_value ?f d \<in> set ?ids" and s: "d ?f = Some (field_value ?f d)"
      by simp_all
    then obtain p where "p \<in> set ?xs" and "parent_member_id p = Inr (Some (field_value ?f d))"
      and "truthy (Some (field_value ?f d))"
      unfolding ids by blast
    with s show ?thesis by auto
  qed
  from eq ids all show ?thesis by simp
qed

theorem reconciliation_completeness_witness:
  "status (sync_member_dependencies epoch example_batch example_database) = 200
 \<and> {v. \<exists>d\<in>set (store (sync_member_dependencies epoch example_batch example_database)
                     ''MemberDependencies''). d ''parentMemberId'' = Some v} = {JStr ''P1''}"
proof -
  have "{v. \<exists>p\<in>set (elems example_batch). parent_member_id p = Inr (Some v) \<and> truthy (Some v)}
      = {JStr ''P1''}"
    by (auto simp: example_batch_def parent_member_id_def)
  moreover have "scalar_parent_ids example_batch"
    by (simp add: scalar_parent_ids_def example_batch_def parent_id_def bson_def)
  moreover have "scalar_field ''parentMemberId'' (example_database ''MemberDependencies'')"
    by (simp add: scalar_field_def example_database_def field_value_def bson_def)
  ultimately show ?thesis
    using reconciliation_completeness [OF example_outcome] example_outcome by simp
qed

section \<open>Deduplication of the dependents\<close>








section \<open>The flat sync\<close>

text \<open>
  Claim C7. The ids of the batch and the \<^verbatim>\<open>promptVersionId\<close> values already stored are
  scalars and the field names of the records are plain. Running the flat sync a second
  time with the same payload leaves the database exactly as the first run left it: every
  document is the same and no document is added. The first run is not idle: when it
  succeeds every key of the batch is present afterwards (\<^verbatim>\<open>null\<close> standing for a missing
  id) and the second run succeeds too. And no duplicate is created: when the collection
  had at most one document per key, it still has.
\<close>

theorem flat_upsert_idempotent:
  assumes "scalar_prompt_ids payload"
    and "plain_records payload"
    and "scalar_field ''promptVersionId'' (db (domain_of q))"
  shows "store (sync_prompt_versions q payload (store (sync_prompt_versions q payload db)))
           = store (sync_prompt_versions q payload db)
       \<and> (status (sync_prompt_versions q payload db) = 200 \<longrightarrow>
            (\<forall>p\<in>set (elems payload).
               \<exists>d\<in>set (store (sync_prompt_versions q payload db) (domain_of q)).
                 field_value ''promptVersionId'' d = bson (own_prop p ''promptVersionId''))
          \<and> status (sync_prompt_versions q payload (store (sync_prompt_versions q payload db))) = 200)
       \<and> (distinct (keys_of ''promptVersionId'' (db (domain_of q))) \<longrightarrow>
            distinct (keys_of ''promptVersionId''
                       (store (sync_prompt_versions q payload db) (domain_of q))))"
proof -
  let ?f = "''promptVersionId''"
  let ?ops = "map prompt_update (takeWhile is_object (elems payload))"
  have keyed: "\<forall>op\<in>set ?ops. keyed_op ?f op"
    by (auto dest: set_takeWhileD intro: prompt_update_keyed)
  then have "fold run_op ?ops (fold run_op ?ops (db (domain_of q))) = fold run_op ?ops (db (domain_of q))"
    by (rule fold_run_op_idem)
  then have idem: "store (sync_prompt_versions q payload (store (sync_prompt_versions q payload db)))
           = store (sync_prompt_versions q payload db)"
    by (simp add: sync_prompt_store)
  have busy: "(\<forall>p\<in>set (elems payload).
               \<exists>d\<in>set (store (sync_prompt_versions q payload db) (domain_of q)).
                 field_value ?f d = bson (own_prop p ?f))
          \<and> status (sync_prompt_versions q payload (store (sync_prompt_versions q payload db))) = 200"
    if ok: "status (sync_prompt_versions q payload db) = 200"
  proof -
    from sync_prompt_success [OF ok] have objs: "\<forall>p\<in>set (elems payload). is_object p"
      and ne: "elems payload \<noteq> []"
      and st: "store (sync_prompt_versions q payload db) (domain_of q)
                 = fold run_op (map prompt_update (elems payload)) (db (domain_of q))"
      by simp_all
    have k: "\<forall>op\<in>set (map prompt_update (elems payload)). keyed_op ?f op"
      using objs by (auto intro: prompt_update_keyed)
    have "\<exists>d\<in>set (fold run_op (map prompt_update (elems payload)) (db (domain_of q))).
            field_value ?f d = bson (own_prop p ?f)" if "p \<in> set (elems payload)" for p
    proof -
      from that have "bson (own_prop p ?f)
          \<in> (\<lambda>op. bson (op_value op)) ` set (map prompt_update (elems payload))"
        by (force simp: prompt_update_def)
      with keys_of_fold [OF k, of "db (domain_of q)"]
      have "bson (own_prop p ?f)
          \<in> set (keys_of ?f (fold run_op (map prompt_update (elems payload)) (db (domain_of q))))"
        by simp
      then show ?thesis by (auto simp: keys_of_def)
    qed
    moreover from ne objs
    have "status (sync_prompt_versions q payload (store (sync_prompt_versions q payload db))) = 200"
      by (rule sync_prompt_accepts)
    ultimately show ?thesis by (simp add: st)
  qed
  have single: "distinct (keys_of ?f (store (sync_prompt_versions q payload db) (domain_of q)))"
    if "distinct (keys_of ?f (db (domain_of q)))"
    using distinct_keys_fold [OF keyed that] that by (simp add: sync_prompt_store)
  from idem busy single show ?thesis by blast
qed

theorem flat_upsert_idempotent_witness:
  "status (sync_prompt_versions None repeat_batch empty_database) = 200
 \<and> store (sync_prompt_versions None repeat_batch
            (store (sync_prompt_versions None repeat_batch empty_database)))
     = store (sync_prompt_versions None repeat_batch empty_database)
 \<and> keys_of ''promptVersionId''
       (store (sync_prompt_versions None repeat_batch
                 (store (sync_prompt_versions None repeat_batch empty_database))) ''Prompt'')
     = [JStr ''A'', JStr ''B'']
 \<and> distinct (keys_of ''promptVersionId''
       (store (sync_prompt_versions None repeat_batch empty_database) ''Prompt''))"
proof -
  have sp: "scalar_prompt_ids repeat_batch"
    by (simp add: scalar_prompt_ids_def repeat_batch_def bson_def)
  have pr: "plain_records repeat_batch"
    by (simp add: plain_records_def repeat_batch_def plain_name_def)
  have dom: "domain_of None = ''Prompt''"
    by (simp add: domain_of_def)
  have sf: "scalar_field ''promptVersionId'' (empty_database (domain_of None))"
    by (simp add: scalar_field_def empty_database_def)
  have d0: "distinct (keys_of ''promptVersionId'' (empty_database (domain_of None)))"
    by (simp add: keys_of_def empty_database_def)
  have ok: "status (sync_prompt_versions None repeat_batch empty_database) = 200"
    by (simp add: sync_prompt_versions_def prompt_op_def domain_of_def repeat_batch_def
          empty_database_def field_value_def bson_def Let_def)
  have once: "keys_of ''promptVersionId''
       (store (sync_prompt_versions None repeat_batch empty_database) ''Prompt'')
     = [JStr ''A'', JStr ''B'']"
    by (simp add: sync_prompt_versions_def prompt_op_def domain_of_def repeat_batch_def
          empty_database_def field_value_def bson_def keys_of_def Let_def)
  from flat_upsert_idempotent [where payload = repeat_batch and db = empty_database and q = None,
      OF sp pr sf] d0 dom
  have "store (sync_prompt_versions None repeat_batch
            (store (sync_prompt_versions None repeat_batch empty_database)))
     = store (sync_prompt_versions None repeat_batch empty_database)"
    and "distinct (keys_of ''promptVersionId''
       (store (sync_prompt_versions None repeat_batch empty_database) ''Prompt''))"
    by simp_all
  with ok once show ?thesis by simp
qed

text \<open>
  Claim C8, as the code has it. The update is \<^verbatim>\<open>$set\<close>, which merges. The ids of the
  batch and the \<^verbatim>\<open>promptVersionId\<close> values already stored are scalars and the field names
  of the records are plain. After a successful flat sync every key of the batch is present
  in the collection (\<^verbatim>\<open>null\<close> standing for a missing id); for a record whose key no later
  record of the batch repeats, a stored document with that key agrees with the record on
  every field of the record; and in every document that was stored before, a field that
  no record of the batch names is what it was.
\<close>

theorem upsert_merges:
  assumes ok: "status (sync_prompt_versions q payload db) = 200"
    and i: "i < length (elems payload)"
    and "scalar_prompt_ids payload"
    and "plain_records payload"
    and "scalar_field ''promptVersionId'' (db (domain_of q))"
  shows "(\<forall>p\<in>set (elems payload).
            \<exists>d\<in>set (store (sync_prompt_versions q payload db) (domain_of q)).
              field_value ''promptVersionId'' d = bson (own_prop p ''promptVersionId''))
       \<and> ((\<forall>j. i < j \<and> j < length (elems payload) \<longrightarrow>
               bson (own_prop (elems payload ! j) ''promptVersionId'')
                 \<noteq> bson (own_prop (elems payload ! i) ''promptVersionId'')) \<longrightarrow>
           (\<exists>d\<in>set (store (sync_prompt_versions q payload db) (domain_of q)).
              field_value ''promptVersionId'' d = bson (own_prop (elems payload ! i) ''promptVersionId'')
            \<and> (\<forall>k x. own_prop (elems payload ! i) k = Some x \<longrightarrow> d k = Some x)))
       \<and> length (db (domain_of q)) \<le> length (store (sync_prompt_versions q payload db) (domain_of q))
       \<and> (\<forall>n<length (db (domain_of q)). \<forall>k.
            (\<forall>p\<in>set (elems payload). own_prop p k = None) \<longrightarrow>
            (store (sync_prompt_versions q payload db) (domain_of q) ! n) k = (db (domain_of q) ! n) k)"
proof -
  let ?xs = "elems payload"
  let ?f = "''promptVersionId''"
  let ?c = "db (domain_of q)"
  let ?ops = "map prompt_update ?xs"
  from sync_prompt_success [OF ok] have objs: "\<forall>p\<in>set ?xs. is_object p"
    and st: "store (sync_prompt_versions q payload db) (domain_of q) = fold run_op ?ops ?c"
    by simp_all
  have keyed: "\<forall>op\<in>set ?ops. keyed_op ?f op"
    using objs by (auto intro: prompt_update_keyed)
  have present: "\<forall>p\<in>set ?xs. \<exists>d\<in>set (fold run_op ?ops ?c). field_value ?f d = bson (own_prop p ?f)"
  proof
    fix p assume "p \<in> set ?xs"
    then have "bson (own_prop p ?f) \<in> (\<lambda>op. bson (op_value op)) ` set ?ops"
      by (force simp: prompt_update_def)
    with keys_of_fold [OF keyed, of ?c]
    have "bson (own_prop p ?f) \<in> set (keys_of ?f (fold run_op ?ops ?c))"
      by simp
    then show "\<exists>d\<in>set (fold run_op ?ops ?c). field_value ?f d = bson (own_prop p ?f)"
      by (auto simp: keys_of_def)
  qed
  have lastw: "\<exists>d\<in>set (fold run_op ?ops ?c).
              field_value ?f d = bson (own_prop (?xs ! i) ?f)
            \<and> (\<forall>k x. own_prop (?xs ! i) k = Some x \<longrightarrow> d k = Some x)"
    if last: "\<forall>j. i < j \<and> j < length ?xs \<longrightarrow>
               bson (own_prop (?xs ! j) ?f) \<noteq> bson (own_prop (?xs ! i) ?f)"
  proof -
    let ?op = "prompt_update (?xs ! i)"
    from i have split: "?ops = map prompt_update (take i ?xs) @ ?op # map prompt_update (drop (Suc i) ?xs)"
      by (metis id_take_nth_drop list.simps(9) map_append)
    from i objs have ko: "keyed_op ?f ?op"
      by (auto intro: prompt_update_keyed)
    have later: "\<forall>op'\<in>set (map prompt_update (drop (Suc i) ?xs)).
        op_field op' = ?f \<and> bson (op_value op') \<noteq> bson (op_value ?op)"
    proof
      fix op' assume "op' \<in> set (map prompt_update (drop (Suc i) ?xs))"
      then obtain n where n: "n < length ?xs - Suc i" and o: "op' = prompt_update (drop (Suc i) ?xs ! n)"
        by (auto simp: in_set_conv_nth)
      then have "op' = prompt_update (?xs ! (Suc i + n))" and "Suc i + n < length ?xs"
        by auto
      with last show "op_field op' = ?f \<and> bson (op_value op') \<noteq> bson (op_value ?op)"
        by (simp add: prompt_update_def)
    qed
    from fold_run_op_last_writer [OF ko later, of "map prompt_update (take i ?xs)" ?c]
    show ?thesis
      unfolding split [symmetric] by (simp add: prompt_update_def)
  qed
  have frame: "length ?c \<le> length (fold run_op ?ops ?c)
      \<and> (\<forall>n<length ?c. (fold run_op ?ops ?c ! n) k = (?c ! n) k)"
    if "\<forall>p\<in>set ?xs. own_prop p k = None" for k
    using that by (intro fold_run_op_frame) (simp add: prompt_update_def)
  have len: "length ?c \<le> length (fold run_op ?ops ?c)"
    by (rule fold_run_op_length)
  from present lastw frame len show ?thesis
    unfolding st by blast
qed

theorem upsert_merges_witness:
  "\<exists>d\<in>set (store (sync_prompt_versions None merge_batch merge_database) ''Prompt'').
      d ''promptVersionId'' = Some (JStr ''A'') \<and> d ''x'' = Some (JNum 2) \<and> d ''old'' = Some (JNum 1)"
proof -
  have i: "0 < length (elems merge_batch)"
    by (simp add: merge_batch_def)
  have last: "\<forall>j. 0 < j \<and> j < length (elems merge_batch) \<longrightarrow>
               bson (own_prop (elems merge_batch ! j) ''promptVersionId'')
                 \<noteq> bson (own_prop (elems merge_batch ! 0) ''promptVersionId'')"
    by (auto simp: merge_batch_def)
  have none: "\<forall>p\<in>set (elems merge_batch). own_prop p ''old'' = None"
    by (simp add: merge_batch_def)
  have dom: "domain_of None = ''Prompt''"
    by (simp add: domain_of_def)
  have db0: "length (merge_database ''Prompt'') = 1" "(merge_database ''Prompt'' ! 0) ''old'' = Some (JNum 1)"
    by (simp_all add: merge_database_def)
  have one: "length (store (sync_prompt_versions None merge_batch merge_database) ''Prompt'') = 1"
    by (simp add: sync_prompt_versions_def prompt_op_def domain_of_def merge_batch_def
          merge_database_def empty_database_def field_value_def bson_def Let_def)
  have sp: "scalar_prompt_ids merge_batch"
    by (simp add: scalar_prompt_ids_def merge_batch_def bson_def)
  have pr: "plain_records merge_batch"
    by (simp add: plain_records_def merge_batch_def plain_name_def)
  have sf: "scalar_field ''promptVersionId'' (merge_database (domain_of None))"
    by (simp add: scalar_field_def merge_database_def dom field_value_def bson_def)
  from upsert_merges [OF merge_outcome i sp pr sf] last dom
  obtain d where d: "d \<in> set (store (sync_prompt_versions None merge_batch merge_database) ''Prompt'')"
    and w: "\<forall>k x. own_prop (elems merge_batch ! 0) k = Some x \<longrightarrow> d k = Some x"
    and old: "(store (sync_prompt_versions None merge_batch merge_database) ''Prompt'' ! 0) ''old''
              = (merge_database ''Prompt'' ! 0) ''old''"
    using none db0 by auto
  from one d have "d = store (sync_prompt_versions None merge_batch merge_database) ''Prompt'' ! 0"
    by (cases "store (sync_prompt_versions None merge_batch merge_database) ''Prompt''") auto
  with old db0 have "d ''old'' = Some (JNum 1)" by simp
  moreover from w have "d ''promptVersionId'' = Some (JStr ''A'')" and "d ''x'' = Some (JNum 2)"
    by (simp_all add: merge_batch_def)
  ultimately show ?thesis using d by blast
qed

text \<open>
  A stored document \<^verbatim>\<open>{promptVersionId: "A", old: 1}\<close> and the batch
  \<^verbatim>\<open>[{promptVersionId: "A", x: 2}]\<close>: the sync succeeds and the field \<^verbatim>\<open>old\<close>, absent from
  the record, is still there.
\<close>

theorem upsert_keeps_old_fields:
  "status (sync_prompt_versions None merge_batch merge_database) = 200
 \<and> get_prop (elems merge_batch ! 0) ''old'' = Inr None
 \<and> (merge_database ''Prompt'' ! 0) ''old'' = Some (JNum 1)
 \<and> map (\<lambda>d. d ''old'') (store (sync_prompt_versions None merge_batch merge_database) ''Prompt'')
     = [Some (JNum 1)]"
  by (simp add: sync_prompt_versions_def prompt_op_def domain_of_def merge_batch_def
        merge_database_def empty_database_def field_value_def bson_def Let_def)

section \<open>The flat delete\<close>

text \<open>
  Claim C10, as the code has it. The ids of the payload and the \<^verbatim>\<open>promptVersionId\<close> values
  stored are scalars. For a payload that is a non-empty array without a \<^verbatim>\<open>null\<close> element,
  and a store that can be reached, the call succeeds with the count of the truthy
  \<^verbatim>\<open>promptVersionId\<close> values of the payload; the documents removed from the target
  collection are exactly those whose \<^verbatim>\<open>promptVersionId\<close> is one of these values, every
  other document and every other collection is unchanged, and without a truthy id no
  delete is issued. A payload that is not an array or is empty is answered with status
  400 without a call on the store; a store that cannot be reached, or a \<^verbatim>\<open>null\<close> element,
  with status 500 after the attempt to connect; none of them deletes anything.
\<close>

theorem delete_only_matching:
  assumes "scalar_prompt_ids payload"
    and "scalar_field ''promptVersionId'' (db (domain_of q))"
  shows "(reachable \<and> is_array payload \<and> elems payload \<noteq> [] \<and> JNull \<notin> set (elems payload) \<longrightarrow>
      status (delete_prompt_versions reachable q payload db) = 200
    \<and> body (delete_prompt_versions reachable q payload db)
        = Delete_completed (domain_of q) (length (prompt_ids payload))
    \<and> store (delete_prompt_versions reachable q payload db) =
        db(domain_of q :=
             filter (\<lambda>d. \<not> (\<exists>v\<in>set (prompt_ids payload). d ''promptVersionId'' = Some v))
               (db (domain_of q)))
    \<and> calls (delete_prompt_versions reachable q payload db) =
        (if prompt_ids payload = [] then [Connect, Close]
         else [Connect,
               DeleteMany (domain_of q) (FieldIn ''promptVersionId'' (prompt_ids payload)),
               Close]))
 \<and> (\<not> is_array payload \<or> elems payload = [] \<longrightarrow>
      status (delete_prompt_versions reachable q payload db) = 400
    \<and> store (delete_prompt_versions reachable q payload db) = db
    \<and> calls (delete_prompt_versions reachable q payload db) = [])
 \<and> (is_array payload \<and> elems payload \<noteq> [] \<and> (\<not> reachable \<or> JNull \<in> set (elems payload)) \<longrightarrow>
      status (delete_prompt_versions reachable q payload db) = 500
    \<and> store (delete_prompt_versions reachable q payload db) = db
    \<and> calls (delete_prompt_versions reachable q payload db) = [Connect])"
proof (intro conjI impI)
  assume a: "\<not> is_array payload \<or> elems payload = []"
  then show "status (delete_prompt_versions reachable q payload db) = 400"
    and "store (delete_prompt_versions reachable q payload db) = db"
    and "calls (delete_prompt_versions reachable q payload db) = []"
    by (auto simp: delete_prompt_versions_def)
next
  assume n: "is_array payload \<and> elems payload \<noteq> [] \<and> (\<not> reachable \<or> JNull \<in> set (elems payload))"
  then show "status (delete_prompt_versions reachable q payload db) = 500"
    and "store (delete_prompt_versions reachable q payload db) = db"
    and "calls (delete_prompt_versions reachable q payload db) = [Connect]"
    by (cases reachable; simp add: delete_prompt_versions_def prompt_id_reads Let_def)+
next
  assume a: "reachable \<and> is_array payload \<and> elems payload \<noteq> [] \<and> JNull \<notin> set (elems payload)"
  let ?ids = "prompt_ids payload"
  let ?keep = "\<lambda>d. \<not> (\<exists>v\<in>set ?ids. d ''promptVersionId'' = Some v)"
  have flt: "filter (\<lambda>d. field_value ''promptVersionId'' d \<notin> set ?ids) c = filter ?keep c" for c
    using field_value_in_truthy [OF prompt_ids_truthy, of "''promptVersionId''" _ payload]
    by simp
  have unf: "delete_prompt_versions reachable q payload db =
      (if length ?ids > 0
       then \<lparr>status = 200, body = Delete_completed (domain_of q) (length ?ids),
             store = db(domain_of q := filter ?keep (db (domain_of q))),
             calls = [Connect, DeleteMany (domain_of q) (FieldIn ''promptVersionId'' ?ids), Close]\<rparr>
       else \<lparr>status = 200, body = Delete_completed (domain_of q) (length ?ids),
             store = db, calls = [Connect, Close]\<rparr>)"
    using a
    by (simp add: delete_prompt_versions_def prompt_id_reads Let_def delete_many_def
          prompt_ids_def [symmetric] flt)
  show "status (delete_prompt_versions reachable q payload db) = 200"
    and "body (delete_prompt_versions reachable q payload db)
           = Delete_completed (domain_of q) (length ?ids)"
    and "calls (delete_prompt_versions reachable q payload db) =
        (if ?ids = [] then [Connect, Close]
         else [Connect, DeleteMany (domain_of q) (FieldIn ''promptVersionId'' ?ids), Close])"
    unfolding unf by simp_all
  show "store (delete_prompt_versions reachable q payload db) =
        db(domain_of q := filter ?keep (db (domain_of q)))"
    unfolding unf by (cases "?ids = []") simp_all
qed

theorem delete_only_matching_witness:
  "status (delete_prompt_versions True None delete_batch delete_database) = 200
 \<and> body (delete_prompt_versions True None delete_batch delete_database)
     = Delete_completed ''Prompt'' 1
 \<and> store (delete_prompt_versions True None delete_batch delete_database) ''Prompt''
     = [[''promptVersionId'' \<mapsto> JStr ''B'']]
 \<and> status (delete_prompt_versions False None delete_batch delete_database) = 500
 \<and> store (delete_prompt_versions False None delete_batch delete_database) = delete_database"
proof -
  have a: "is_array delete_batch \<and> elems delete_batch \<noteq> [] \<and> JNull \<notin> set (elems delete_batch)"
    by (simp add: delete_batch_def)
  have ids: "prompt_ids delete_batch = [JStr ''A'']"
    by (simp add: prompt_ids_def delete_batch_def filter_boolean_def)
  have dom: "domain_of None = ''Prompt''"
    by (simp add: domain_of_def)
  have sp: "scalar_prompt_ids delete_batch"
    by (simp add: scalar_prompt_ids_def delete_batch_def bson_def)
  have sf: "scalar_field ''promptVersionId'' (delete_database (domain_of None))"
    by (simp add: scalar_field_def delete_database_def dom field_value_def bson_def)
  from delete_only_matching [where payload = delete_batch and db = delete_database and q = None
      and reachable = True, OF sp sf] a
  have "status (delete_prompt_versions True None delete_batch delete_database) = 200"
    and "body (delete_prompt_versions True None delete_batch delete_database)
        = Delete_completed (domain_of None) (length (prompt_ids delete_batch))"
    and "store (delete_prompt_versions True None delete_batch delete_database) =
        delete_database(domain_of None :=
             filter (\<lambda>d. \<not> (\<exists>v\<in>set (prompt_ids delete_batch). d ''promptVersionId'' = Some v))
               (delete_database (domain_of None)))"
    by blast+
  moreover from delete_only_matching [where payload = delete_batch and db = delete_database
      and q = None and reachable = False, OF sp sf] a
  have "status (delete_prompt_versions False None delete_batch delete_database) = 500"
    and "store (delete_prompt_versions False None delete_batch delete_database) = delete_database"
    by blast+
  ultimately show ?thesis
    by (simp add: ids dom delete_database_def)
qed

text \<open>
  The empty array holds no truthy id, and the call does not succeed even with a store
  that can be reached: status 400.
\<close>

theorem delete_empty_payload_rejected:
  "prompt_ids (JArr []) = []
 \<and> status (delete_prompt_versions True None (JArr []) delete_database) = 400
 \<and> body (delete_prompt_versions True None (JArr []) delete_database) = Error_empty_payload"
  by (simp add: prompt_ids_def filter_boolean_def delete_prompt_versions_def)

end
